theory Spec2Isabelle
  imports Main "HOL-Library.Word"
begin

section \<open>The quota enforcer of \<^verbatim>\<open>quota/enforcer.go\<close>\<close>

subsection \<open>Data\<close>

text \<open>
  \<^verbatim>\<open>type Ticket interface{}\<close>: any Go value can be passed as a ticket. The two values
  \<^verbatim>\<open>Acquire\<close> returns are \<^verbatim>\<open>emptyTicket{}\<close> (the spec's Granted) and the boolean
  \<^verbatim>\<open>false\<close> (the spec's Denied); \<open>otherValue\<close> stands for every other Go value.
\<close>

datatype Ticket = emptyTicket | boolValue bool | otherValue nat

abbreviation Granted :: Ticket where
  "Granted \<equiv> emptyTicket"

abbreviation Denied :: Ticket where
  "Denied \<equiv> boolValue False"

type_synonym int64 = "64 word"
type_synonym uint32 = "32 word"

text \<open>
  \<^verbatim>\<open>struct { n atomic.Int64; wait chan struct{} }\<close>. The counter is a 64-bit word read
  as a signed number with \<open>sint\<close>; \<open>+\<close> wraps as Go's \<^verbatim>\<open>Add\<close> does. The channel
  carries values of the one-element type \<^verbatim>\<open>struct{}\<close>, so its contents are the number
  of buffered elements; the constructor makes it with capacity 1.
\<close>

record StaticQuotaEnforcer =
  n :: int64
  wait :: nat

definition wait_cap :: nat where
  "wait_cap = 1"

text \<open>\<^verbatim>\<open>ctx.Done()\<close> is a channel that is closed once the context is cancelled or expires.\<close>

datatype Context = Context (Done: bool)

subsection \<open>Primitive operations\<close>

text \<open>\<^verbatim>\<open>q.n.Add(d)\<close>: one atomic step that stores and returns the new value.\<close>

definition atomic_Add :: "StaticQuotaEnforcer \<Rightarrow> int64 \<Rightarrow> StaticQuotaEnforcer \<times> int64" where
  "atomic_Add q d = (let v = n q + d in (q\<lparr>n := v\<rparr>, v))"

text \<open>
  \<^verbatim>\<open>q.wait <- struct{}{}\<close> and \<^verbatim>\<open><-q.wait\<close>. \<open>None\<close> means the operation cannot
  proceed in this state (buffer full, respectively empty) and the goroutine stays blocked.
\<close>

definition chan_send :: "StaticQuotaEnforcer \<Rightarrow> StaticQuotaEnforcer option" where
  "chan_send q = (if wait q < wait_cap then Some (q\<lparr>wait := Suc (wait q)\<rparr>) else None)"

definition chan_recv :: "StaticQuotaEnforcer \<Rightarrow> StaticQuotaEnforcer option" where
  "chan_recv q = (if 0 < wait q then Some (q\<lparr>wait := wait q - 1\<rparr>) else None)"

subsection \<open>NewStaticQuotaEnforcer\<close>

text \<open>\<^verbatim>\<open>int64(n)\<close> of a \<^verbatim>\<open>uint32\<close> zero-extends.\<close>

definition NewStaticQuotaEnforcer :: "uint32 \<Rightarrow> StaticQuotaEnforcer" where
  "NewStaticQuotaEnforcer c = \<lparr>n = ucast c, wait = 0\<rparr>"

subsection \<open>Acquire\<close>

text \<open>
  Where a call stands after its atomic \<^verbatim>\<open>q.n.Add(-1)\<close>: it returns at once, or it is at
  the \<^verbatim>\<open>select\<close> statement.
\<close>

datatype acquire_pc = AcquireReturn Ticket | AcquireSelect

definition Acquire_add :: "StaticQuotaEnforcer \<Rightarrow> StaticQuotaEnforcer \<times> acquire_pc" where
  "Acquire_add q =
     (case atomic_Add q (- 1) of
        (q', v) \<Rightarrow> if sint v < 0 then (q', AcquireSelect) else (q', AcquireReturn emptyTicket))"

text \<open>
  The \<^verbatim>\<open>select\<close> over \<^verbatim>\<open>ctx.Done()\<close> and \<^verbatim>\<open>q.wait\<close>. When both cases are ready Go
  picks one at random: \<open>pick\<close> is that choice. When neither is ready the call is
  suspended; it runs the \<^verbatim>\<open>select\<close> again when it is woken.
\<close>

datatype select_case = CtxDone | WaitRecv

datatype acquire_outcome =
  Returned Ticket StaticQuotaEnforcer
| Suspended StaticQuotaEnforcer

definition Acquire_select ::
  "select_case \<Rightarrow> Context \<Rightarrow> StaticQuotaEnforcer \<Rightarrow> acquire_outcome" where
  "Acquire_select pick ctx q =
     (if Done ctx \<and> (wait q = 0 \<or> pick = CtxDone) then Returned (boolValue False) q
      else case chan_recv q of
             Some q' \<Rightarrow> Returned emptyTicket q'
           | None \<Rightarrow> Suspended q)"

text \<open>A whole call of \<^verbatim>\<open>Acquire\<close> with no other goroutine running in between.\<close>

definition Acquire ::
  "select_case \<Rightarrow> Context \<Rightarrow> StaticQuotaEnforcer \<Rightarrow> acquire_outcome" where
  "Acquire pick ctx q =
     (case Acquire_add q of
        (q', AcquireReturn t) \<Rightarrow> Returned t q'
      | (q', AcquireSelect) \<Rightarrow> Acquire_select pick ctx q')"

subsection \<open>Release\<close>

text \<open>
  Where a call stands after its atomic \<^verbatim>\<open>q.n.Add(1)\<close>: it returns, or it is at the
  send statement \<^verbatim>\<open>q.wait <- struct{}{}\<close>, which it executes once.
\<close>

datatype release_pc = ReleaseReturn | ReleaseSend

definition Release_add :: "Ticket \<Rightarrow> StaticQuotaEnforcer \<Rightarrow> StaticQuotaEnforcer \<times> release_pc" where
  "Release_add t q =
     (case atomic_Add q 1 of
        (q', v) \<Rightarrow> if sint v \<le> 0 then (q', ReleaseSend) else (q', ReleaseReturn))"

text \<open>The number of wake signals a call of \<^verbatim>\<open>Release\<close> sends.\<close>

fun signals :: "release_pc \<Rightarrow> nat" where
  "signals ReleaseReturn = 0"
| "signals ReleaseSend = 1"

text \<open>
  A whole call of \<^verbatim>\<open>Release\<close> with no other goroutine running in between; \<open>None\<close> when
  the send finds the buffer full and blocks.
\<close>

definition Release :: "Ticket \<Rightarrow> StaticQuotaEnforcer \<Rightarrow> StaticQuotaEnforcer option" where
  "Release t q =
     (case Release_add t q of
        (q', ReleaseSend) \<Rightarrow> chan_send q'
      | (q', ReleaseReturn) \<Rightarrow> Some q')"

subsection \<open>Consecutive non-blocking acquisitions\<close>

text \<open>
  How many calls of \<^verbatim>\<open>Acquire\<close> in a row, with no release in between, return from the
  fast path.
\<close>

function fast_acquires :: "StaticQuotaEnforcer \<Rightarrow> nat" where
  "fast_acquires q =
     (if snd (Acquire_add q) = AcquireReturn emptyTicket
      then Suc (fast_acquires (fst (Acquire_add q)))
      else 0)"
  by pat_completeness auto
termination
proof (relation "measure (\<lambda>q. unat (n q))")
  show "wf (measure (\<lambda>q. unat (n q)))"
    by simp
next
  fix q :: StaticQuotaEnforcer
  assume fast: "snd (Acquire_add q) = AcquireReturn emptyTicket"
  have nz: "n q \<noteq> 0"
  proof
    assume "n q = 0"
    then have "snd (Acquire_add q) = AcquireSelect"
      by (simp add: Acquire_add_def atomic_Add_def Let_def)
    with fast show False by simp
  qed
  then have "0 < unat (n q)"
    by (simp add: unat_gt_0)
  with nz have "unat (n q - 1) < unat (n q)"
    by (simp add: unat_minus_one)
  then show "(fst (Acquire_add q), q) \<in> measure (\<lambda>q. unat (n q))"
    by (simp add: Acquire_add_def atomic_Add_def Let_def)
qed

subsection \<open>Goroutines calling one enforcer\<close>

text \<open>
  The enforcer together with the bookkeeping of its callers: how many Granted tickets
  are held and not yet released, how many calls of \<^verbatim>\<open>Acquire\<close> stand at the
  \<^verbatim>\<open>select\<close>, how many calls of \<^verbatim>\<open>Acquire\<close> have returned Denied, and how many
  calls of \<^verbatim>\<open>Release\<close> stand at the send.
\<close>

record system =
  enf :: StaticQuotaEnforcer
  granted :: nat
  waiting :: nat
  denied :: nat
  sending :: nat

definition start :: "uint32 \<Rightarrow> system" where
  "start c = \<lparr>enf = NewStaticQuotaEnforcer c, granted = 0, waiting = 0, denied = 0, sending = 0\<rparr>"

text \<open>
  The atomic steps of the two methods, interleaved in any order: a goroutine calls
  \<^verbatim>\<open>Acquire\<close> and performs its \<^verbatim>\<open>Add(-1)\<close>; a call at the \<^verbatim>\<open>select\<close> takes
  one of its cases (with the state of its own context); a goroutine calls
  \<^verbatim>\<open>Release\<close> and performs its \<^verbatim>\<open>Add(1)\<close>; a call at the send puts its signal into
  the channel.
\<close>

datatype event =
  CallAcquire
| RunSelect select_case Context
| CallRelease Ticket
| RunSend

definition hand_out :: "Ticket \<Rightarrow> system \<Rightarrow> system" where
  "hand_out t s =
     (if t = emptyTicket then s\<lparr>granted := Suc (granted s)\<rparr> else s\<lparr>denied := Suc (denied s)\<rparr>)"

definition take_back :: "Ticket \<Rightarrow> system \<Rightarrow> system" where
  "take_back t s = (if t = emptyTicket then s\<lparr>granted := granted s - 1\<rparr> else s)"

text \<open>\<open>None\<close>: the step cannot be taken in this state.\<close>

fun step :: "event \<Rightarrow> system \<Rightarrow> system option" where
  "step CallAcquire s =
     (case Acquire_add (enf s) of
        (q', AcquireReturn t) \<Rightarrow> Some (hand_out t (s\<lparr>enf := q'\<rparr>))
      | (q', AcquireSelect) \<Rightarrow> Some (s\<lparr>enf := q', waiting := Suc (waiting s)\<rparr>))"
| "step (RunSelect pick ctx) s =
     (if waiting s = 0 then None
      else case Acquire_select pick ctx (enf s) of
             Returned t q' \<Rightarrow> Some (hand_out t (s\<lparr>enf := q', waiting := waiting s - 1\<rparr>))
           | Suspended q' \<Rightarrow> None)"
| "step (CallRelease t) s =
     (case Release_add t (enf s) of
        (q', ReleaseSend) \<Rightarrow> Some (take_back t (s\<lparr>enf := q', sending := Suc (sending s)\<rparr>))
      | (q', ReleaseReturn) \<Rightarrow> Some (take_back t (s\<lparr>enf := q'\<rparr>)))"
| "step RunSend s =
     (if sending s = 0 then None
      else case chan_send (enf s) of
             Some q' \<Rightarrow> Some (s\<lparr>enf := q', sending := sending s - 1\<rparr>)
           | None \<Rightarrow> None)"

text \<open>
  What the callers have to respect. \<^verbatim>\<open>Acquire\<close> is called synchronously: no call is
  made while another one stands at the \<^verbatim>\<open>select\<close>. Ticket discipline: only a Granted
  ticket that is held is released.
\<close>

fun disciplined :: "event \<Rightarrow> system \<Rightarrow> bool" where
  "disciplined CallAcquire s = (waiting s = 0)"
| "disciplined (CallRelease t) s = (t = emptyTicket \<and> 0 < granted s)"
| "disciplined (RunSelect pick ctx) s = True"
| "disciplined RunSend s = True"

fun run :: "event list \<Rightarrow> system \<Rightarrow> system option" where
  "run [] s = Some s"
| "run (e # es) s =
     (if disciplined e s
      then case step e s of Some s' \<Rightarrow> run es s' | None \<Rightarrow> None
      else None)"

text \<open>
  With capacity 1: a call is granted, a second call waits and is cancelled, the first
  ticket is released and the release sends its signal.
\<close>

definition cancel_then_release :: "event list" where
  "cancel_then_release =
     [CallAcquire, CallAcquire, RunSelect CtxDone (Context True), CallRelease Granted, RunSend]"

text \<open>\<open>k\<close> calls of \<^verbatim>\<open>Acquire\<close>, one after the other, each cancelled while it waits.\<close>

definition cancelled_acquires :: "nat \<Rightarrow> event list" where
  "cancelled_acquires k = concat (replicate k [CallAcquire, RunSelect CtxDone (Context True)])"

text \<open>
  What the bookkeeping adds up to: the counter is the capacity less the tickets held,
  the calls at the \<^verbatim>\<open>select\<close> and the calls that were denied; tickets held and
  signals on their way never exceed the capacity; every signal on its way answers a
  call that waits or was denied; at most one call waits.
\<close>

definition accounted :: "uint32 \<Rightarrow> system \<Rightarrow> bool" where
  "accounted c s =
     (sint (n (enf s)) = uint c - int (granted s) - int (waiting s) - int (denied s)
      \<and> granted s + wait (enf s) + sending s \<le> unat c
      \<and> wait (enf s) + sending s \<le> waiting s + denied s
      \<and> waiting s \<le> 1)"

declare fast_acquires.simps [simp del]

section \<open>Properties\<close>

subsection \<open>Signed reading of the counter\<close>

lemma sint_plus_one:
  fixes x :: int64
  assumes "sint x < 2 ^ 63 - 1"
  shows "sint (x + 1) = sint x + 1"
proof -
  have lo: "- (2 ^ 63) \<le> sint x"
    using sint_ge [of x] by simp
  have "sint (x + 1) = signed_take_bit 63 (sint x + 1)"
    by (simp add: sint_word_ariths)
  also have "\<dots> = sint x + 1"
    using assms lo by (simp add: signed_take_bit_int_eq_self_iff)
  finally show ?thesis .
qed

lemma sint_minus_one:
  fixes x :: int64
  assumes "- (2 ^ 63) < sint x"
  shows "sint (x - 1) = sint x - 1"
proof -
  have hi: "sint x < 2 ^ 63"
    using sint_lt [of x] by simp
  have "sint (x - 1) = signed_take_bit 63 (sint x - 1)"
    by (simp add: sint_word_ariths)
  also have "\<dots> = sint x - 1"
    using assms hi by (simp add: signed_take_bit_int_eq_self_iff)
  finally show ?thesis .
qed

lemma sint_pre_decrement:
  fixes x :: int64
  assumes "sint (x - 1) < 0"
  shows "sint (x - 1) = sint x - 1"
proof (cases "- (2 ^ 63) < sint x")
  case True
  then show ?thesis by (rule sint_minus_one)
next
  case False
  moreover have "- (2 ^ 63) \<le> sint x"
    using sint_ge [of x] by simp
  ultimately have "sint x = - (2 ^ 63)"
    by simp
  moreover have "sint (x - 1) = signed_take_bit 63 (sint x - 1)"
    by (simp add: sint_word_ariths)
  ultimately have "sint (x - 1) = signed_take_bit 63 (- (2 ^ 63) - 1)"
    by simp
  also have "\<dots> = 2 ^ 63 - 1"
    by (simp add: signed_take_bit_eq_take_bit_shift take_bit_eq_mod)
  finally show ?thesis
    using assms by simp
qed

lemma sint_int64_of_uint32:
  fixes c :: uint32
  shows "sint (ucast c :: int64) = uint c"
proof -
  have "uint c < 2 ^ 32"
    using uint_bounded [of c] by simp
  then have hi: "uint c < 2 ^ 63"
    by simp
  have "sint (ucast c :: int64) = signed_take_bit 63 (uint c)"
    by (simp add: signed_ucast_eq)
  also have "\<dots> = uint c"
  proof -
    have "- (2 ^ 63) \<le> uint c"
      by (rule order_trans [OF _ uint_nonnegative]) simp
    with hi show ?thesis
      by (simp only: signed_take_bit_int_eq_self_iff)
  qed
  finally show ?thesis
    by simp
qed

lemma uint_unat: "uint c = int (unat c)"
  by simp

lemma uint32_bound:
  fixes c :: uint32
  shows "uint c < 2 ^ 32"
  using uint_bounded [of c] by simp

lemma sint_neg_of_nat:
  assumes "k \<le> 2 ^ 63"
  shows "sint (- of_nat k :: int64) = - int k"
proof -
  have "sint (- of_nat k :: int64) = sint (word_of_int (- int k) :: int64)"
    by simp
  also have "\<dots> = signed_take_bit 63 (- int k)"
    by (simp only: sint_sbintrunc') simp
  also have "\<dots> = - int k"
  proof -
    from assms have "int k \<le> 2 ^ 63"
      by (metis of_nat_le_numeral_power_cancel_iff)
    then show ?thesis
      by (simp add: signed_take_bit_int_eq_self_iff)
  qed
  finally show ?thesis .
qed

subsection \<open>The atomic steps in closed form\<close>

lemma Acquire_add_eq:
  "Acquire_add q =
     (q\<lparr>n := n q - 1\<rparr>, if sint (n q - 1) < 0 then AcquireSelect else AcquireReturn Granted)"
  by (simp add: Acquire_add_def atomic_Add_def Let_def)

lemma Release_add_eq:
  "Release_add t q =
     (q\<lparr>n := n q + 1\<rparr>, if sint (n q + 1) \<le> 0 then ReleaseSend else ReleaseReturn)"
  by (simp add: Release_add_def atomic_Add_def Let_def)

lemmas run_simps =
  start_def NewStaticQuotaEnforcer_def Acquire_add_eq Release_add_eq Acquire_select_def
  chan_recv_def chan_send_def wait_cap_def hand_out_def take_back_def

lemma fast_acquires_counter:
  "n q = n q' \<Longrightarrow> fast_acquires q = fast_acquires q'"
proof (induction q arbitrary: q' rule: fast_acquires.induct)
  case (1 q)
  show ?case
  proof (cases "snd (Acquire_add q) = AcquireReturn Granted")
    case True
    with "1.prems" have fast': "snd (Acquire_add q') = AcquireReturn Granted"
      by (simp add: Acquire_add_eq)
    have "n (fst (Acquire_add q)) = n (fst (Acquire_add q'))"
      using "1.prems" by (simp add: Acquire_add_eq)
    with True have "fast_acquires (fst (Acquire_add q)) = fast_acquires (fst (Acquire_add q'))"
      by (rule "1.IH")
    with True fast' show ?thesis
      by (simp add: fast_acquires.simps [of q] fast_acquires.simps [of q'])
  next
    case False
    with "1.prems" have "snd (Acquire_add q') \<noteq> AcquireReturn Granted"
      by (simp add: Acquire_add_eq)
    with False show ?thesis
      by (simp add: fast_acquires.simps [of q] fast_acquires.simps [of q'])
  qed
qed

subsection \<open>The constructor\<close>

text \<open>
  C7: for every capacity \<open>c\<close> (a \<^verbatim>\<open>uint32\<close>, so never negative),
  \<^verbatim>\<open>NewStaticQuotaEnforcer(c)\<close> returns an enforcer whose counter equals \<open>c\<close> and
  whose channel is empty: no signal is pending and a receive would block.
\<close>

theorem NewStaticQuotaEnforcer_state:
  "sint (n (NewStaticQuotaEnforcer c)) = uint c
   \<and> wait (NewStaticQuotaEnforcer c) = 0
   \<and> chan_recv (NewStaticQuotaEnforcer c) = None"
  by (simp add: NewStaticQuotaEnforcer_def sint_int64_of_uint32 chan_recv_def)

subsection \<open>One call of Acquire\<close>

text \<open>
  C3: when the counter is at least 1 at the call, \<^verbatim>\<open>Acquire\<close> returns after its
  \<^verbatim>\<open>Add(-1)\<close> without reaching the \<^verbatim>\<open>select\<close>, the ticket is Granted, and the
  counter, read as a signed number, is one less than before; the channel is untouched.
\<close>

theorem Acquire_with_free_slot:
  assumes "1 \<le> sint (n q)"
  shows "Acquire_add q = (q\<lparr>n := n q - 1\<rparr>, AcquireReturn Granted)
         \<and> Acquire pick ctx q = Returned Granted (q\<lparr>n := n q - 1\<rparr>)
         \<and> sint (n q - 1) = sint (n q) - 1"
proof -
  have dec: "sint (n q - 1) = sint (n q) - 1"
    using assms by (intro sint_minus_one) simp
  with assms have "\<not> sint (n q - 1) < 0"
    by simp
  then show ?thesis
    using dec by (simp add: Acquire_def Acquire_add_eq)
qed

text \<open>
  C3 at a concrete state: counter 1, empty channel.
\<close>

theorem Acquire_with_free_slot_witness:
  "Acquire CtxDone (Context False) \<lparr>n = 1, wait = 0\<rparr> = Returned Granted \<lparr>n = 0, wait = 0\<rparr>"
  using Acquire_with_free_slot [of "\<lparr>n = 1, wait = 0\<rparr>" CtxDone "Context False"] by simp

text \<open>
  C4 as stated fails when a wake signal is already buffered. With capacity 1, after a
  granted call, a cancelled waiting call and the release of the granted ticket, the
  counter is 0 and one signal is in the channel. A call of \<^verbatim>\<open>Acquire\<close> whose context
  was done before the call decrements the counter to \<open>-1\<close> and finds both cases of the
  \<^verbatim>\<open>select\<close> ready; when the runtime picks the receive, the call returns Granted, not
  Denied.
\<close>

theorem Acquire_done_context_granted_counterexample:
  "map_option enf (run cancel_then_release (start 1)) = Some \<lparr>n = 0, wait = 1\<rparr>
   \<and> sint (n \<lparr>n = 0, wait = 1\<rparr> - 1) < 0
   \<and> Done (Context True)
   \<and> Acquire WaitRecv (Context True) \<lparr>n = 0, wait = 1\<rparr> = Returned Granted \<lparr>n = - 1, wait = 0\<rparr>"
  by (simp add: cancel_then_release_def run_simps Acquire_def)

text \<open>
  C4, amended: when the counter is negative after the decrement and the context is
  done, \<^verbatim>\<open>Acquire\<close> returns Denied exactly when the \<^verbatim>\<open>select\<close> takes the
  \<^verbatim>\<open>ctx.Done()\<close> case, that is when no signal is buffered or the runtime picks that
  case among the two ready ones; the state it leaves is then the state after the
  decrement. Otherwise the call takes the buffered signal and returns Granted. In both
  cases the counter is one less than before the call and nothing restores it. The
  \<^verbatim>\<open>select\<close> itself, whenever it takes the \<^verbatim>\<open>ctx.Done()\<close> case (also after the call
  was suspended, in any state \<open>q2\<close>), changes nothing.
\<close>

theorem Acquire_cancelled:
  assumes "sint (n q - 1) < 0" and "Done ctx"
  shows "Acquire_add q = (q\<lparr>n := n q - 1\<rparr>, AcquireSelect)
         \<and> Acquire pick ctx q =
             (if wait q = 0 \<or> pick = CtxDone then Returned Denied (q\<lparr>n := n q - 1\<rparr>)
              else Returned Granted (q\<lparr>n := n q - 1, wait := wait q - 1\<rparr>))
         \<and> Acquire_select pick ctx (q\<lparr>n := n q - 1\<rparr>) = Acquire pick ctx q
         \<and> sint (n q - 1) = sint (n q) - 1
         \<and> Acquire_select CtxDone ctx q2 = Returned Denied q2"
  using assms sint_pre_decrement [of "n q"]
  by (auto simp add: Acquire_def Acquire_add_eq Acquire_select_def chan_recv_def)

text \<open>
  C4, amended, at concrete states with a context that is already done: capacity 0, so
  counter 0 and an empty channel; and counter 0 with a buffered signal, where the
  runtime picks the \<^verbatim>\<open>ctx.Done()\<close> case. The counter is left at \<open>-1\<close>.
\<close>

theorem Acquire_cancelled_witness:
  "Acquire WaitRecv (Context True) \<lparr>n = 0, wait = 0\<rparr> = Returned Denied \<lparr>n = - 1, wait = 0\<rparr>
   \<and> Acquire CtxDone (Context True) \<lparr>n = 0, wait = 1\<rparr> = Returned Denied \<lparr>n = - 1, wait = 1\<rparr>
   \<and> sint (n \<lparr>n = 0, wait = 0\<rparr> - 1) = sint (n \<lparr>n = 0, wait = 0\<rparr>) - 1"
  using Acquire_cancelled [of "\<lparr>n = 0, wait = 0\<rparr>" "Context True" WaitRecv]
    Acquire_cancelled [of "\<lparr>n = 0, wait = 1\<rparr>" "Context True" CtxDone]
  by simp

text \<open>
  C9: when the counter is not negative after the decrement, \<^verbatim>\<open>Acquire\<close> returns
  Granted whatever the context is, in particular when the context was done before the
  call: the context is looked at on the slow path only.
\<close>

theorem Acquire_fast_path_ignores_context:
  assumes "0 \<le> sint (n q - 1)"
  shows "Acquire pick ctx q = Returned Granted (q\<lparr>n := n q - 1\<rparr>)
         \<and> Acquire pick (Context True) q = Returned Granted (q\<lparr>n := n q - 1\<rparr>)"
  using assms by (simp add: Acquire_def Acquire_add_eq)

text \<open>
  C9 at a concrete state, with a context that is already done.
\<close>

theorem Acquire_fast_path_ignores_context_witness:
  "Acquire CtxDone (Context True) \<lparr>n = 1, wait = 0\<rparr> = Returned Granted \<lparr>n = 0, wait = 0\<rparr>"
  using Acquire_fast_path_ignores_context [of "\<lparr>n = 1, wait = 0\<rparr>" CtxDone "Context True"] by simp

subsection \<open>One call of Release\<close>

text \<open>
  C5: every call of \<^verbatim>\<open>Release\<close> adds one to the counter (as a signed number too,
  unless the counter is at its largest value, where \<^verbatim>\<open>Add\<close> wraps), leaves the channel
  alone in that step, and then sends one signal when the new value is at most 0 and no
  signal when it is positive. A call that returns has put exactly that many signals into
  the channel, and with room in the channel the call does return.
\<close>

theorem Release_effect:
  "n (fst (Release_add t q)) = n q + 1
   \<and> wait (fst (Release_add t q)) = wait q
   \<and> signals (snd (Release_add t q)) = (if sint (n q + 1) \<le> 0 then 1 else 0)
   \<and> (sint (n q) < 2 ^ 63 - 1 \<longrightarrow> sint (n (fst (Release_add t q))) = sint (n q) + 1)
   \<and> (\<forall>q'. Release t q = Some q' \<longrightarrow>
         n q' = n q + 1 \<and> wait q' = wait q + signals (snd (Release_add t q)))
   \<and> (wait q < wait_cap \<longrightarrow> (\<exists>q'. Release t q = Some q'))"
  by (auto simp add: Release_add_eq Release_def chan_send_def sint_plus_one)

text \<open>
  C5 at two concrete states: from counter \<open>-1\<close> one signal is sent, from counter 0
  none.
\<close>

theorem Release_effect_witness:
  "sint (n (fst (Release_add Granted \<lparr>n = - 1, wait = 0\<rparr>))) = 0
   \<and> signals (snd (Release_add Granted \<lparr>n = - 1, wait = 0\<rparr>)) = 1
   \<and> Release Granted \<lparr>n = - 1, wait = 0\<rparr> = Some \<lparr>n = 0, wait = 1\<rparr>
   \<and> signals (snd (Release_add Granted \<lparr>n = 0, wait = 0\<rparr>)) = 0
   \<and> Release Granted \<lparr>n = 0, wait = 0\<rparr> = Some \<lparr>n = 1, wait = 0\<rparr>"
  using Release_effect [of Granted "\<lparr>n = - 1, wait = 0\<rparr>"]
    Release_effect [of Granted "\<lparr>n = 0, wait = 0\<rparr>"]
  by (simp add: Release_def Release_add_eq chan_send_def wait_cap_def)

text \<open>
  C6 as stated fails: released at counter \<open>-1\<close>, the new value is 0, which is not
  negative, and the call does send a signal.
\<close>

theorem Release_signal_at_zero_counterexample:
  "snd (Release_add Granted \<lparr>n = - 1, wait = 0\<rparr>) = ReleaseSend
   \<and> Release Granted \<lparr>n = - 1, wait = 0\<rparr> = Some \<lparr>n = 0, wait = 1\<rparr>
   \<and> \<not> sint (n (fst (Release_add Granted \<lparr>n = - 1, wait = 0\<rparr>))) < 0"
  by (simp add: Release_def Release_add_eq chan_send_def wait_cap_def)

text \<open>
  C6, amended: a call of \<^verbatim>\<open>Release\<close> sends a signal exactly when the counter after its
  increment is at most 0 (zero included), and returns without one exactly when it is
  positive. With room in the channel the call returns, and the channel holds one more
  signal in the first case and is unchanged in the second.
\<close>

theorem Release_signal_iff_nonpositive:
  "(snd (Release_add t q) = ReleaseSend) = (sint (n (fst (Release_add t q))) \<le> 0)
   \<and> (snd (Release_add t q) = ReleaseReturn) = (0 < sint (n (fst (Release_add t q))))
   \<and> (wait q < wait_cap \<longrightarrow>
        (\<exists>q'. Release t q = Some q'
           \<and> wait q' = (if sint (n q') \<le> 0 then Suc (wait q) else wait q)))"
  by (auto simp add: Release_add_eq Release_def chan_send_def)

text \<open>
  C6, amended, at a concrete state: counter \<open>-1\<close>, empty channel.
\<close>

theorem Release_signal_iff_nonpositive_witness:
  "wait \<lparr>n = - 1, wait = 0\<rparr> < wait_cap
   \<and> (\<exists>q'. Release Granted \<lparr>n = - 1, wait = 0\<rparr> = Some q' \<and> wait q' = 1 \<and> sint (n q') = 0)"
  using Release_signal_iff_nonpositive [of Granted "\<lparr>n = - 1, wait = 0\<rparr>"]
  by (simp add: Release_def Release_add_eq chan_send_def wait_cap_def)

text \<open>
  C10: \<^verbatim>\<open>Release\<close> never looks at its argument. For every ticket value, Granted,
  Denied or any other, the whole call adds one to the counter and, when the new value is
  at most 0, sends one signal (blocking while the channel is full); when the new value is
  positive it returns with the channel untouched. This is what it does for a Granted
  ticket. Nothing rejects a Denied ticket: the step of the call is always taken and
  always increments the counter.
\<close>

theorem Release_ignores_ticket:
  "Release_add t q = Release_add Granted q
   \<and> Release t q = Release Granted q
   \<and> Release Denied q = Release Granted q
   \<and> Release_add Denied q =
       (q\<lparr>n := n q + 1\<rparr>, if sint (n q + 1) \<le> 0 then ReleaseSend else ReleaseReturn)
   \<and> map_option enf (step (CallRelease t) s) = map_option enf (step (CallRelease Granted) s)
   \<and> Release_add t q =
       (q\<lparr>n := n q + 1\<rparr>, if sint (n q + 1) \<le> 0 then ReleaseSend else ReleaseReturn)
   \<and> Release t q =
       (if sint (n q + 1) \<le> 0
        then if wait q < wait_cap then Some (q\<lparr>n := n q + 1, wait := Suc (wait q)\<rparr>) else None
        else Some (q\<lparr>n := n q + 1\<rparr>))
   \<and> Release Denied q =
       (if sint (n q + 1) \<le> 0
        then if wait q < wait_cap then Some (q\<lparr>n := n q + 1, wait := Suc (wait q)\<rparr>) else None
        else Some (q\<lparr>n := n q + 1\<rparr>))
   \<and> map_option (\<lambda>s'. n (enf s')) (step (CallRelease t) s) = Some (n (enf s) + 1)
   \<and> map_option (\<lambda>s'. sending s' - sending s) (step (CallRelease t) s) =
       Some (if sint (n (enf s) + 1) \<le> 0 then 1 else 0)"
  by (simp add: Release_add_eq Release_def chan_send_def take_back_def)

subsection \<open>Acquire, then Release\<close>

text \<open>
  C8: when \<^verbatim>\<open>Acquire\<close> returns Granted from the fast path, the \<^verbatim>\<open>Add(1)\<close> of a
  following \<^verbatim>\<open>Release\<close> of that ticket puts the counter back to its value before the
  acquisition, and one more call of \<^verbatim>\<open>Acquire\<close> in a row takes the fast path than after
  the acquisition alone. When the counter was at least 1, that \<^verbatim>\<open>Release\<close> returns and
  the whole enforcer is as it was.
\<close>

theorem Acquire_Release_round_trip:
  assumes "Acquire_add q = (q1, AcquireReturn Granted)"
  shows "n (fst (Release_add t q1)) = n q
         \<and> fast_acquires (fst (Release_add t q1)) = Suc (fast_acquires q1)
         \<and> (1 \<le> sint (n q) \<longrightarrow> Release t q1 = Some q)"
proof -
  from assms have q1: "q1 = q\<lparr>n := n q - 1\<rparr>" and fast: "\<not> sint (n q - 1) < 0"
    by (auto simp add: Acquire_add_eq split: if_splits)
  have restored: "n (fst (Release_add t q1)) = n q"
    by (simp add: q1 Release_add_eq)
  have "fast_acquires (fst (Release_add t q1)) = fast_acquires q"
    using restored by (rule fast_acquires_counter)
  also have "\<dots> = Suc (fast_acquires q1)"
    using assms by (simp add: fast_acquires.simps [of q])
  finally have gain: "fast_acquires (fst (Release_add t q1)) = Suc (fast_acquires q1)" .
  have "Release t q1 = Some q" if "1 \<le> sint (n q)"
    using that by (simp add: q1 Release_def Release_add_eq)
  with restored gain show ?thesis
    by simp
qed

text \<open>
  C8 at a concrete state: counter 2, empty channel.
\<close>

theorem Acquire_Release_round_trip_witness:
  "Acquire_add \<lparr>n = 2, wait = 0\<rparr> = (\<lparr>n = 1, wait = 0\<rparr>, AcquireReturn Granted)
   \<and> Release Granted \<lparr>n = 1, wait = 0\<rparr> = Some \<lparr>n = 2, wait = 0\<rparr>
   \<and> fast_acquires \<lparr>n = 2, wait = 0\<rparr> = Suc (fast_acquires \<lparr>n = 1, wait = 0\<rparr>)"
proof -
  have a: "Acquire_add \<lparr>n = 2, wait = 0\<rparr> = (\<lparr>n = 1, wait = 0\<rparr>, AcquireReturn Granted)"
    by (simp add: Acquire_add_eq)
  show ?thesis
    using a Acquire_Release_round_trip [OF a, of Granted]
    by (simp add: Release_add_eq)
qed

subsection \<open>Interleaved calls: what every step preserves\<close>

lemma start_accounted: "accounted c (start c)"
  by (simp add: accounted_def start_def NewStaticQuotaEnforcer_def sint_int64_of_uint32)

lemma CallAcquire_accounted:
  assumes inv: "accounted c s" and sync: "waiting s = 0" and few: "int (denied s) < 2 ^ 63"
    and st: "step CallAcquire s = Some s'"
  shows "accounted c s'"
proof -
  from inv sync have cnt: "sint (n (enf s)) = uint c - int (granted s) - int (denied s)"
    and room: "granted s + wait (enf s) + sending s \<le> unat c"
    and sig: "wait (enf s) + sending s \<le> denied s"
    by (simp_all add: accounted_def)
  from cnt room few uint_unat [of c] have "- (2 ^ 63) < sint (n (enf s))"
    by linarith
  then have dec: "sint (n (enf s) - 1) = sint (n (enf s)) - 1"
    by (rule sint_minus_one)
  show ?thesis
  proof (cases "sint (n (enf s) - 1) < 0")
    case True
    with st have "s' = s\<lparr>enf := (enf s)\<lparr>n := n (enf s) - 1\<rparr>, waiting := Suc (waiting s)\<rparr>"
      by (simp add: Acquire_add_eq)
    with cnt room sig sync dec show ?thesis
      by (simp add: accounted_def)
  next
    case False
    with st have "s' = s\<lparr>enf := (enf s)\<lparr>n := n (enf s) - 1\<rparr>, granted := Suc (granted s)\<rparr>"
      by (simp add: Acquire_add_eq hand_out_def)
    moreover from False dec cnt sig uint_unat [of c]
    have "Suc (granted s) + wait (enf s) + sending s \<le> unat c"
      by linarith
    ultimately show ?thesis
      using cnt sig sync dec by (simp add: accounted_def)
  qed
qed

lemma RunSelect_accounted:
  assumes inv: "accounted c s" and st: "step (RunSelect pick ctx) s = Some s'"
  shows "accounted c s'"
proof -
  from st have w: "waiting s \<noteq> 0"
    by (auto split: if_splits)
  show ?thesis
  proof (cases "Done ctx \<and> (wait (enf s) = 0 \<or> pick = CtxDone)")
    case True
    with st w have "s' = s\<lparr>waiting := waiting s - 1, denied := Suc (denied s)\<rparr>"
      by (simp add: Acquire_select_def hand_out_def)
    with inv w show ?thesis
      by (simp add: accounted_def)
  next
    case False
    with st w have sig: "0 < wait (enf s)"
      and "s' = s\<lparr>enf := (enf s)\<lparr>wait := wait (enf s) - 1\<rparr>, waiting := waiting s - 1,
             granted := Suc (granted s)\<rparr>"
      by (auto simp add: Acquire_select_def chan_recv_def hand_out_def split: if_splits)
    moreover from inv have "sint (n (enf s)) = uint c - int (granted s) - int (waiting s) - int (denied s)"
      and "granted s + wait (enf s) + sending s \<le> unat c"
      and "wait (enf s) + sending s \<le> waiting s + denied s"
      and "waiting s \<le> 1"
      by (simp_all add: accounted_def)
    ultimately show ?thesis
      using w by (simp add: accounted_def)
  qed
qed

lemma CallRelease_accounted:
  assumes inv: "accounted c s" and held: "0 < granted s"
    and st: "step (CallRelease Granted) s = Some s'"
  shows "accounted c s'"
proof -
  from inv have cnt: "sint (n (enf s)) = uint c - int (granted s) - int (waiting s) - int (denied s)"
    and room: "granted s + wait (enf s) + sending s \<le> unat c"
    and sig: "wait (enf s) + sending s \<le> waiting s + denied s"
    and one: "waiting s \<le> 1"
    by (simp_all add: accounted_def)
  from cnt have "sint (n (enf s)) \<le> uint c"
    by linarith
  with uint32_bound [of c] have "sint (n (enf s)) < 2 ^ 63 - 1"
    by simp
  then have inc: "sint (n (enf s) + 1) = sint (n (enf s)) + 1"
    by (rule sint_plus_one)
  show ?thesis
  proof (cases "sint (n (enf s) + 1) \<le> 0")
    case True
    with st have "s' = s\<lparr>enf := (enf s)\<lparr>n := n (enf s) + 1\<rparr>, sending := Suc (sending s),
        granted := granted s - 1\<rparr>"
      by (simp add: Release_add_eq take_back_def)
    moreover from True inc cnt room uint_unat [of c]
    have "wait (enf s) + Suc (sending s) \<le> waiting s + denied s"
      by linarith
    ultimately show ?thesis
      using cnt room one held inc by (simp add: accounted_def)
  next
    case False
    with st have "s' = s\<lparr>enf := (enf s)\<lparr>n := n (enf s) + 1\<rparr>, granted := granted s - 1\<rparr>"
      by (simp add: Release_add_eq take_back_def)
    with cnt room sig one held inc show ?thesis
      by (simp add: accounted_def)
  qed
qed

lemma RunSend_accounted:
  assumes inv: "accounted c s" and st: "step RunSend s = Some s'"
  shows "accounted c s'"
proof -
  from st have "sending s \<noteq> 0"
    and "s' = s\<lparr>enf := (enf s)\<lparr>wait := Suc (wait (enf s))\<rparr>, sending := sending s - 1\<rparr>"
    by (auto simp add: chan_send_def split: if_splits)
  with inv show ?thesis
    by (simp add: accounted_def)
qed

lemma step_denied:
  assumes "step e s = Some s'"
  shows "denied s \<le> denied s'"
  using assms
  by (cases e)
    (auto simp add: Acquire_add_eq Release_add_eq hand_out_def take_back_def
      split: if_splits acquire_outcome.splits option.splits)

lemma step_accounted:
  assumes inv: "accounted c s" and ok: "disciplined e s" and st: "step e s = Some s'"
    and few: "denied s' < 2 ^ 63"
  shows "accounted c s'"
proof (cases e)
  case CallAcquire
  from st have "denied s \<le> denied s'"
    by (rule step_denied)
  with few have "denied s < 2 ^ 63"
    by simp
  then have "int (denied s) < 2 ^ 63"
    by (metis of_nat_less_numeral_power_cancel_iff)
  with inv ok st CallAcquire show ?thesis
    by (simp add: CallAcquire_accounted del: step.simps)
next
  case (RunSelect pick ctx)
  with inv st show ?thesis
    by (simp add: RunSelect_accounted del: step.simps)
next
  case (CallRelease t)
  with inv ok st show ?thesis
    by (simp add: CallRelease_accounted del: step.simps)
next
  case RunSend
  with inv st show ?thesis
    by (simp add: RunSend_accounted del: step.simps)
qed

lemma run_denied:
  "run es s = Some s' \<Longrightarrow> denied s \<le> denied s'"
proof (induction es arbitrary: s)
  case Nil
  then show ?case by simp
next
  case (Cons e es)
  from Cons.prems obtain s1 where st: "step e s = Some s1" and rest: "run es s1 = Some s'"
    by (auto split: if_splits option.splits)
  from st have "denied s \<le> denied s1"
    by (rule step_denied)
  also from rest have "denied s1 \<le> denied s'"
    by (rule Cons.IH)
  finally show ?case .
qed

lemma run_accounted:
  "accounted c s \<Longrightarrow> run es s = Some s' \<Longrightarrow> denied s' < 2 ^ 63 \<Longrightarrow> accounted c s'"
proof (induction es arbitrary: s)
  case Nil
  then show ?case by simp
next
  case (Cons e es)
  from Cons.prems(2) obtain s1 where ok: "disciplined e s"
    and st: "step e s = Some s1" and rest: "run es s1 = Some s'"
    by (auto split: if_splits option.splits)
  from rest have "denied s1 \<le> denied s'"
    by (rule run_denied)
  with Cons.prems(3) have "denied s1 < 2 ^ 63"
    by simp
  with Cons.prems(1) ok st have "accounted c s1"
    by (rule step_accounted)
  from this rest Cons.prems(3) show ?case
    by (rule Cons.IH)
qed

lemma run_append:
  "run (es @ es') s = (case run es s of Some s' \<Rightarrow> run es' s' | None \<Rightarrow> None)"
  by (induction es arbitrary: s) (simp_all split: option.splits)

lemma cancelled_acquires_Suc:
  "cancelled_acquires (Suc k) =
     cancelled_acquires k @ [CallAcquire, RunSelect CtxDone (Context True)]"
proof -
  have "replicate (Suc k) [CallAcquire, RunSelect CtxDone (Context True)] =
      replicate k [CallAcquire, RunSelect CtxDone (Context True)]
        @ [[CallAcquire, RunSelect CtxDone (Context True)]]"
    by (simp add: replicate_append_same)
  then show ?thesis
    by (simp only: cancelled_acquires_def concat_append) simp
qed

lemma run_cancelled_acquires:
  "k \<le> 2 ^ 63 \<Longrightarrow>
   run (cancelled_acquires k) (start 0) =
     Some \<lparr>enf = \<lparr>n = - of_nat k, wait = 0\<rparr>, granted = 0, waiting = 0, denied = k, sending = 0\<rparr>"
proof (induction k)
  case 0
  then show ?case
    by (simp add: cancelled_acquires_def run_simps)
next
  case (Suc k)
  then have k: "Suc k \<le> 2 ^ 63" and IH: "run (cancelled_acquires k) (start 0) =
     Some \<lparr>enf = \<lparr>n = - of_nat k, wait = 0\<rparr>, granted = 0, waiting = 0, denied = k, sending = 0\<rparr>"
    by simp_all
  have "(- of_nat k - 1 :: int64) = - of_nat (Suc k)"
    by simp
  then have "sint (- of_nat k - 1 :: int64) = sint (- of_nat (Suc k) :: int64)"
    by (rule arg_cong)
  also have "\<dots> = - int (Suc k)"
    using k by (rule sint_neg_of_nat)
  finally have neg: "sint (- of_nat k - 1 :: int64) < 0"
    by simp
  show ?case
    using neg by (simp add: cancelled_acquires_Suc run_append IH Acquire_add_eq
        Acquire_select_def hand_out_def)
qed

subsection \<open>Tickets held and the capacity\<close>

text \<open>
  C1 as stated fails, at the far end of the counter's range. With capacity 0, after
  \<open>2 ^ 63\<close> calls of \<^verbatim>\<open>Acquire\<close> that were each cancelled while waiting (none of them
  restores the counter) the counter is \<open>- 2 ^ 63\<close>; the \<^verbatim>\<open>Add(-1)\<close> of the next call
  wraps to \<open>2 ^ 63 - 1\<close>, which is not negative, and that call returns Granted: one
  ticket is held with capacity 0. The run respects synchronous calls and ticket
  discipline.
\<close>

theorem granted_beyond_capacity_counterexample:
  "map_option granted (run (cancelled_acquires (2 ^ 63) @ [CallAcquire]) (start 0)) = Some 1
   \<and> \<not> (1::nat) \<le> unat (0::uint32)"
proof -
  have "sint (- of_nat (2 ^ 63) - 1 :: int64) = 2 ^ 63 - 1"
    by simp
  then have "\<not> sint (- of_nat (2 ^ 63) - 1 :: int64) < 0"
    by simp
  then show ?thesis
    by (simp add: run_append run_cancelled_acquires Acquire_add_eq hand_out_def
        del: of_nat_power of_nat_numeral)
qed

text \<open>
  C1, amended: for every capacity \<open>c\<close> and every run of the steps of \<^verbatim>\<open>Acquire\<close> and
  \<^verbatim>\<open>Release\<close> that respects synchronous calls of \<^verbatim>\<open>Acquire\<close> and ticket
  discipline, as long as fewer than \<open>2 ^ 63\<close> calls of \<^verbatim>\<open>Acquire\<close> have returned
  Denied, at most \<open>c\<close> Granted tickets are held and not yet released.
\<close>

theorem granted_within_capacity:
  assumes "run es (start c) = Some s" and "denied s < 2 ^ 63"
  shows "granted s \<le> unat c"
proof -
  have "accounted c s"
    using start_accounted assms by (rule run_accounted)
  then show ?thesis
    by (simp add: accounted_def)
qed

text \<open>
  C1, amended, on a run with capacity 1: a first call is granted, a second one waits,
  the first ticket is released, the signal is sent and wakes the second call.
\<close>

theorem granted_within_capacity_witness:
  "run [CallAcquire, CallAcquire, CallRelease Granted, RunSend, RunSelect WaitRecv (Context False)]
     (start 1)
   = Some \<lparr>enf = \<lparr>n = 0, wait = 0\<rparr>, granted = 1, waiting = 0, denied = 0, sending = 0\<rparr>
   \<and> (1::nat) \<le> unat (1::uint32)"
proof -
  have r: "run [CallAcquire, CallAcquire, CallRelease Granted, RunSend, RunSelect WaitRecv (Context False)]
     (start 1)
   = Some \<lparr>enf = \<lparr>n = 0, wait = 0\<rparr>, granted = 1, waiting = 0, denied = 0, sending = 0\<rparr>"
    by (simp add: run_simps)
  show ?thesis
    using r granted_within_capacity [OF r] by simp
qed

subsection \<open>The counter and the tickets held\<close>

text \<open>
  C2 as stated fails after a cancelled call. With capacity 1: a first call is granted, a
  second one waits and is cancelled, the first ticket is released and its signal stays in
  the channel. No ticket is held, the counter is 0, and capacity minus tickets held is 1.
\<close>

theorem counter_after_cancel_counterexample:
  "run cancel_then_release (start 1)
   = Some \<lparr>enf = \<lparr>n = 0, wait = 1\<rparr>, granted = 0, waiting = 0, denied = 1, sending = 0\<rparr>
   \<and> 0 \<le> sint (n (enf (the (run cancel_then_release (start 1)))))
   \<and> uint (1::uint32) - int (granted (the (run cancel_then_release (start 1))))
       \<noteq> sint (n (enf (the (run cancel_then_release (start 1)))))"
  by (simp add: cancel_then_release_def run_simps)

text \<open>
  C2, amended: in every state reached by a run that respects synchronous calls and
  ticket discipline, with fewer than \<open>2 ^ 63\<close> calls denied, the counter equals the
  capacity minus the tickets held, minus the calls of \<^verbatim>\<open>Acquire\<close> suspended at the
  \<^verbatim>\<open>select\<close>, minus the calls of \<^verbatim>\<open>Acquire\<close> denied so far. So capacity minus
  tickets held equals the counter whenever no call is suspended and none has been
  denied.
\<close>

theorem counter_accounts_for_callers:
  assumes "run es (start c) = Some s" and "denied s < 2 ^ 63"
  shows "sint (n (enf s)) = uint c - int (granted s) - int (waiting s) - int (denied s)
         \<and> (waiting s = 0 \<and> denied s = 0 \<longrightarrow> uint c - int (granted s) = sint (n (enf s)))"
proof -
  have "accounted c s"
    using start_accounted assms by (rule run_accounted)
  then show ?thesis
    by (simp add: accounted_def)
qed

text \<open>
  C2, amended, on two runs with capacity 1: the run of the counterexample, where one
  call was denied, and a single granted call.
\<close>

theorem counter_accounts_for_callers_witness:
  "run cancel_then_release (start 1)
   = Some \<lparr>enf = \<lparr>n = 0, wait = 1\<rparr>, granted = 0, waiting = 0, denied = 1, sending = 0\<rparr>
   \<and> sint (0::int64) = uint (1::uint32) - int 0 - int 0 - int 1
   \<and> run [CallAcquire] (start 1)
     = Some \<lparr>enf = \<lparr>n = 0, wait = 0\<rparr>, granted = 1, waiting = 0, denied = 0, sending = 0\<rparr>
   \<and> uint (1::uint32) - int 1 = sint (0::int64)"
proof -
  have r: "run cancel_then_release (start 1)
   = Some \<lparr>enf = \<lparr>n = 0, wait = 1\<rparr>, granted = 0, waiting = 0, denied = 1, sending = 0\<rparr>"
    by (simp add: cancel_then_release_def run_simps)
  have r': "run [CallAcquire] (start 1)
     = Some \<lparr>enf = \<lparr>n = 0, wait = 0\<rparr>, granted = 1, waiting = 0, denied = 0, sending = 0\<rparr>"
    by (simp add: run_simps)
  show ?thesis
    using r r' counter_accounts_for_callers [OF r] counter_accounts_for_callers [OF r']
    by simp
qed

end
